theory Spec2Isabelle
  imports Main
begin

section \<open>NinjaTime: the program\<close>

text \<open>
  A shallow embedding of \<^verbatim>\<open>NinjaTime.py\<close>. Timestamps are Python integers
  (\<open>int\<close>). A string is a list of characters; a character stands for a code point
  below 256 of the decoded text. A thread is the position of a slot in the scheduler's
  list (\<open>nat\<close>), or \<open>None\<close> while unset. An exception is a value of type
  \<open>error\<close>, returned on the left of a sum.
\<close>

subsection \<open>Class \<^verbatim>\<open>Target\<close>\<close>

text \<open>
  The attribute \<^verbatim>\<open>end\<close> is called \<open>endt\<close>, \<^verbatim>\<open>end\<close> being a keyword of
  the theory language.
\<close>

record Target =
  start :: int
  endt :: int
  name :: string
  hash :: string
  thread :: "nat option"


text \<open>\<^verbatim>\<open>Target.__eq__\<close>: equality on name and hash.\<close>

definition Target_eq :: "Target \<Rightarrow> Target \<Rightarrow> bool" where
  "Target_eq t other \<longleftrightarrow> name t = name other \<and> hash t = hash other"

text \<open>\<^verbatim>\<open>Target.__contains__\<close>: the strict overlap test (the scheduler does not use it).\<close>

definition Target_contains :: "Target \<Rightarrow> Target \<Rightarrow> bool" where
  "Target_contains t other \<longleftrightarrow>
     start t > start other \<and> start t < endt other \<or>
     endt t > start other \<and> endt t < endt other"

subsection \<open>Class \<^verbatim>\<open>Build\<close>\<close>

text \<open>
  \<open>current\<close> is the iteration cursor \<^verbatim>\<open>_current\<close>; the attribute does not exist
  before the first \<^verbatim>\<open>__iter__\<close>, which is \<open>None\<close> here.
\<close>

record Build =
  targets :: "Target list"
  current :: "nat option"

definition Build_init :: Build where
  "Build_init = \<lparr>targets = [], current = None\<rparr>"

text \<open>
  \<^verbatim>\<open>Build.__contains__\<close>: the loop returns at the first target of the same name.
  Only the names are compared. The argument is always a \<^verbatim>\<open>Target\<close>, so the
  type test of the source is true.
\<close>

fun contains_name :: "Target list \<Rightarrow> Target \<Rightarrow> bool" where
  "contains_name [] target = False"
| "contains_name (t # ts) target = (if name t = name target then True else contains_name ts target)"

definition Build_contains :: "Build \<Rightarrow> Target \<Rightarrow> bool" where
  "Build_contains b target = contains_name (targets b) target"

definition add_target :: "Build \<Rightarrow> Target \<Rightarrow> Build" where
  "add_target b target = b\<lparr>targets := targets b @ [target]\<rparr>"

subsection \<open>Exceptions\<close>

text \<open>
  \<open>VersionError good_version bad_version\<close> is the class of the source.
  \<open>ValueError_unpack n\<close> is the \<^verbatim>\<open>ValueError\<close> raised when a list of \<open>n\<close>
  values, \<open>n\<close> not 5, is unpacked into five names; \<open>ValueError_int s\<close> is the one
  raised by \<^verbatim>\<open>int(s)\<close> for an invalid literal, whose message quotes \<open>s\<close>;
  \<open>ValueError_digits n\<close> is the one raised by \<^verbatim>\<open>int()\<close> for a literal of
  \<open>n\<close> digits, more than the interpreter converts; \<open>AttributeError\<close> is raised by
  the read of an attribute that the object does not have; \<open>SystemExit n\<close> is
  \<^verbatim>\<open>exit(n)\<close>.
\<close>

datatype error =
    VersionError int int
  | ValueError_unpack nat
  | ValueError_int string
  | ValueError_digits nat
  | AttributeError
  | SystemExit nat

subsection \<open>Strings and \<^verbatim>\<open>int()\<close>\<close>

abbreviation TAB :: char where "TAB \<equiv> CHR 0x09"
abbreviation NL :: char where "NL \<equiv> CHR 0x0A"

text \<open>The white space of \<^verbatim>\<open>str.isspace\<close> and \<^verbatim>\<open>str.rstrip\<close> below code
  point 256.\<close>

definition isspace :: "char \<Rightarrow> bool" where
  "isspace c = ((of_char c :: nat) \<in> {9, 10, 11, 12, 13, 28, 29, 30, 31, 32, 133, 160})"

definition isdigit :: "char \<Rightarrow> bool" where
  "isdigit c = (48 \<le> (of_char c :: nat) \<and> (of_char c :: nat) \<le> 57)"

definition digit_val :: "char \<Rightarrow> int" where
  "digit_val c = of_char c - 48"

definition rstrip :: "string \<Rightarrow> string" where
  "rstrip s = rev (dropWhile isspace (rev s))"

text \<open>\<^verbatim>\<open>s.split(sep)\<close> for a separator of one character; the empty string gives one
  empty field.\<close>

fun str_split :: "char \<Rightarrow> string \<Rightarrow> string list" where
  "str_split sep [] = [[]]"
| "str_split sep (c # cs) =
     (if c = sep then [] # str_split sep cs
      else (case str_split sep cs of f # fs \<Rightarrow> (c # f) # fs | [] \<Rightarrow> [[c]]))"

text \<open>
  \<^verbatim>\<open>int(s)\<close> in base 10. White space is skipped, then an optional sign is read,
  then the longest run of digits and underscores; white space may follow, and nothing
  else. The white space of \<^verbatim>\<open>int()\<close> is not that of \<^verbatim>\<open>str.isspace\<close>: the
  code points 28 to 31 are not skipped. The run must begin and end with a digit and have
  no two underscores in a row. A run of more digits than \<open>int_max_str_digits\<close> (the
  default of the interpreter, from CPython 3.11 on) is refused before what follows the
  run is looked at.
\<close>

definition int_space :: "char \<Rightarrow> bool" where
  "int_space c = ((of_char c :: nat) \<in> {9, 10, 11, 12, 13, 32, 133, 160})"

definition int_max_str_digits :: int where
  "int_max_str_digits = 4300"

definition digit_or_underscore :: "char \<Rightarrow> bool" where
  "digit_or_underscore c = (isdigit c \<or> c = CHR ''_'')"

fun double_underscore :: "string \<Rightarrow> bool" where
  "double_underscore (a # b # cs) =
     (a = CHR ''_'' \<and> b = CHR ''_'' \<or> double_underscore (b # cs))"
| "double_underscore cs = False"

definition digits_value :: "string \<Rightarrow> int" where
  "digits_value run = foldl (\<lambda>acc c. acc * 10 + digit_val c) 0 (filter isdigit run)"

text \<open>The literal after the sign: \<open>s\<close> is the whole argument, for the message of the
  error, and \<open>u\<close> what follows the sign.\<close>

definition int_literal :: "string \<Rightarrow> bool \<Rightarrow> string \<Rightarrow> error + int" where
  "int_literal s neg u =
     (let run = takeWhile digit_or_underscore u;
          rest = dropWhile digit_or_underscore u;
          digits = length (filter isdigit run)
      in if run = [] \<or> hd run = CHR ''_'' \<or> last run = CHR ''_'' \<or> double_underscore run
         then Inl (ValueError_int s)
         else if int digits > int_max_str_digits then Inl (ValueError_digits digits)
         else if dropWhile int_space rest \<noteq> [] then Inl (ValueError_int s)
         else Inr (if neg then - digits_value run else digits_value run))"

definition py_int :: "string \<Rightarrow> error + int" where
  "py_int s =
     (case dropWhile int_space s of
        [] \<Rightarrow> int_literal s False []
      | c # cs \<Rightarrow>
          if c = CHR ''-'' then int_literal s True cs
          else if c = CHR ''+'' then int_literal s False cs
          else int_literal s False (c # cs))"

text \<open>\<^verbatim>\<open>Target.__init__\<close>: \<^verbatim>\<open>int(start)\<close> first, then \<^verbatim>\<open>int(end)\<close>.\<close>

definition Target_init :: "string \<Rightarrow> string \<Rightarrow> string \<Rightarrow> string \<Rightarrow> error + Target" where
  "Target_init start_s end_s tname target_hash =
     (case py_int start_s of
        Inl e \<Rightarrow> Inl e
      | Inr s \<Rightarrow>
          (case py_int end_s of
             Inl e \<Rightarrow> Inl e
           | Inr e \<Rightarrow>
               Inr \<lparr>start = s, endt = e, name = tname, hash = target_hash, thread = None\<rparr>))"

subsection \<open>\<^verbatim>\<open>check_version\<close>\<close>

text \<open>
  \<^verbatim>\<open>ninja_log_expr.match(line)\<close> for the pattern
  \<^verbatim>\<open>#[\t ]+ninja[\t ]+log[\t ]+v(\d)\<close>: the match is anchored at the start of the
  line only, and the group is the one digit after \<^verbatim>\<open>v\<close>. Each run of blanks is
  followed by a letter, so the longest run is the only one that can match.
\<close>

fun lit :: "string \<Rightarrow> string \<Rightarrow> string option" where
  "lit [] s = Some s"
| "lit (p # ps) [] = None"
| "lit (p # ps) (c # cs) = (if p = c then lit ps cs else None)"

definition blank :: "char \<Rightarrow> bool" where
  "blank c = (c = TAB \<or> c = CHR '' '')"

definition blanks1 :: "string \<Rightarrow> string option" where
  "blanks1 s =
     (case s of c # cs \<Rightarrow> if blank c then Some (dropWhile blank cs) else None | [] \<Rightarrow> None)"

definition ninja_log_match :: "string \<Rightarrow> char option" where
  "ninja_log_match line =
     Option.bind (lit ''#'' line) (\<lambda>r.
     Option.bind (blanks1 r) (\<lambda>r.
     Option.bind (lit ''ninja'' r) (\<lambda>r.
     Option.bind (blanks1 r) (\<lambda>r.
     Option.bind (lit ''log'' r) (\<lambda>r.
     Option.bind (blanks1 r) (\<lambda>r.
     Option.bind (lit ''v'' r) (\<lambda>r.
       case r of d # _ \<Rightarrow> if isdigit d then Some d else None | [] \<Rightarrow> None)))))))"

definition allowed_versions :: "int list" where
  "allowed_versions = [5]"

definition check_version :: "string \<Rightarrow> error + int option" where
  "check_version line =
     (if line \<noteq> [] \<and> hd line \<noteq> CHR ''#'' then Inr None
      else case ninja_log_match line of
        None \<Rightarrow> Inr None
      | Some d \<Rightarrow>
          let version = digit_val d in
          if version \<notin> set allowed_versions
          then Inl (VersionError (arg_min_list (\<lambda>x. \<bar>x - version\<bar>) allowed_versions) version)
          else Inr (Some version))"

subsection \<open>\<^verbatim>\<open>need_new_build\<close>\<close>

definition need_new_build :: "Build \<Rightarrow> Target \<Rightarrow> bool" where
  "need_new_build current_build new_target =
     (if targets current_build = [] then False
      else if Build_contains current_build new_target then True
      else endt new_target < endt (last (targets current_build)))"

subsection \<open>\<^verbatim>\<open>read_log\<close>\<close>

text \<open>
  The file is its text after decoding and newline translation. \<open>file_lines\<close> cuts it
  after each newline, as \<^verbatim>\<open>readline\<close> and the iteration over the file do; the
  state of the open file is the list of the lines not read yet, and \<^verbatim>\<open>readline\<close>
  returns the empty string at the end of the file.
\<close>

fun file_lines :: "string \<Rightarrow> string list" where
  "file_lines [] = []"
| "file_lines (c # cs) =
     (if c = NL then [NL] # file_lines cs
      else (case file_lines cs of [] \<Rightarrow> [[c]] | l # ls \<Rightarrow> (c # l) # ls))"

definition readline :: "string list \<Rightarrow> string \<times> string list" where
  "readline f = (case f of [] \<Rightarrow> ([], []) | l # ls \<Rightarrow> (l, ls))"

text \<open>
  The loop \<^verbatim>\<open>while version is None\<close>. It may run forever, so the result is an
  option: \<open>None\<close> when the loop does not return, \<open>Some (Inl e)\<close> when
  \<^verbatim>\<open>check_version\<close> raises, \<open>Some (Inr (version, f))\<close> with the rest of the file
  otherwise.
\<close>

partial_function (option) find_version :: "string list \<Rightarrow> (error + int \<times> string list) option"
  where
  "find_version f =
     (case readline f of (line, f') \<Rightarrow>
        (case check_version line of
           Inl e \<Rightarrow> Some (Inl e)
         | Inr None \<Rightarrow> find_version f'
         | Inr (Some version) \<Rightarrow> Some (Inr (version, f'))))"

text \<open>
  The unpacking \<^verbatim>\<open>start, end, _, tname, thash = line.rstrip().split('\t')\<close>
  followed by \<^verbatim>\<open>Target(start, end, tname, thash)\<close>.
\<close>

definition parse_record :: "string \<Rightarrow> error + Target" where
  "parse_record line =
     (case str_split TAB (rstrip line) of
        [start_s, end_s, _, tname, thash] \<Rightarrow> Target_init start_s end_s tname thash
      | fs \<Rightarrow> Inl (ValueError_unpack (length fs)))"

text \<open>
  The end of the loop body: the new target opens a new build or joins the last one.
  \<^verbatim>\<open>current_build\<close> is \<^verbatim>\<open>builds[-1]\<close>, an object of the list, so appending
  to it changes the last element of the list.
\<close>

definition append_target :: "Build list \<Rightarrow> Target \<Rightarrow> Build list" where
  "append_target builds new_target =
     (if need_new_build (last builds) new_target
      then builds @ [add_target Build_init new_target]
      else butlast builds @ [add_target (last builds) new_target])"

fun read_body :: "Build list \<Rightarrow> string list \<Rightarrow> error + Build list" where
  "read_body builds [] = Inr builds"
| "read_body builds (line # f) =
     (if line = [] \<or> hd line = CHR ''#'' then read_body builds f
      else case parse_record line of
        Inl e \<Rightarrow> Inl e
      | Inr new_target \<Rightarrow> read_body (append_target builds new_target) f)"

text \<open>
  The result of \<^verbatim>\<open>read_log\<close>: \<open>None\<close> when it does not return; otherwise what
  was printed to the error stream (the exceptions whose text was printed) and either the
  exception that left the function or the builds.
\<close>

definition read_log :: "string \<Rightarrow> (error list \<times> (error + Build list)) option" where
  "read_log content =
     (case find_version (file_lines content) of
        None \<Rightarrow> None
      | Some (Inl e) \<Rightarrow> Some ([e], Inl (SystemExit 1))
      | Some (Inr (version, f)) \<Rightarrow> Some ([], read_body [Build_init] f))"

subsection \<open>\<^verbatim>\<open>assign_threads\<close>\<close>

text \<open>
  The inner loop over \<^verbatim>\<open>enumerate(threads)\<close>: the first thread whose end time is
  at most the start of the target, if there is one.
\<close>

fun scan_threads :: "int list \<Rightarrow> int \<Rightarrow> nat option" where
  "scan_threads [] s = None"
| "scan_threads (end_time # rest) s =
     (if end_time \<le> s then Some 0 else map_option Suc (scan_threads rest s))"

text \<open>
  One round of the outer loop. The targets are objects shared between
  \<^verbatim>\<open>build.targets\<close> and the sorted list; an object is named by its position in
  \<^verbatim>\<open>build.targets\<close>, and setting its thread updates the list at that position.
  When no thread is free, a thread is added only if the thread of the target is still
  \<^verbatim>\<open>None\<close>.
\<close>

definition schedule_target :: "nat \<Rightarrow> Target list \<times> int list \<Rightarrow> Target list \<times> int list" where
  "schedule_target i = (\<lambda>(ts, threads).
     let target = ts ! i in
     case scan_threads threads (start target) of
       Some th \<Rightarrow> (ts[i := target\<lparr>thread := Some th\<rparr>], threads[th := endt target])
     | None \<Rightarrow>
         if thread target = None
         then (ts[i := target\<lparr>thread := Some (length threads)\<rparr>], threads @ [endt target])
         else (ts, threads))"

text \<open>\<^verbatim>\<open>sorted(build.targets, key=lambda t: t.start)\<close>, a stable sort, as the list
  of the positions of the objects.\<close>

definition sorted_targets :: "Target list \<Rightarrow> nat list" where
  "sorted_targets ts = sort_key (\<lambda>i. start (ts ! i)) [0..<length ts]"

definition assign_threads :: "Build \<Rightarrow> Build" where
  "assign_threads build =
     build\<lparr>targets :=
       fst (fold schedule_target (sorted_targets (targets build)) (targets build, [0]))\<rparr>"

subsection \<open>\<^verbatim>\<open>target_to_dict\<close> and \<^verbatim>\<open>main\<close>\<close>










section \<open>Notions of the specification\<close>

text \<open>A record as the reader creates it: no thread yet.\<close>

abbreviation mk_target :: "int \<Rightarrow> int \<Rightarrow> string \<Rightarrow> string \<Rightarrow> Target" where
  "mk_target s e n h \<equiv> \<lparr>start = s, endt = e, name = n, hash = h, thread = None\<rparr>"

text \<open>A record of the same identity (name and content hash) is in the invocation.\<close>

definition has_identity :: "Build \<Rightarrow> Target \<Rightarrow> bool" where
  "has_identity b t = list_ex (\<lambda>r. Target_eq r t) (targets b)"

text \<open>An invocation as it reaches the scheduler: no record has a slot. Every build of
  the reader is so (\<open>read_log_fresh\<close>).\<close>

definition fresh :: "Build \<Rightarrow> bool" where
  "fresh b = list_all (\<lambda>t. thread t = None) (targets b)"

text \<open>A record without its slot: all that the scheduler must leave as it is.\<close>

definition unthreaded :: "Target \<Rightarrow> Target" where
  "unthreaded t = t\<lparr>thread := None\<rparr>"

text \<open>
  The number of records in flight at the instant \<open>t\<close>: a record is in flight from its
  start on and no longer at its end, so that a record starting when another ends is not
  concurrent with it. \<open>max_in_flight\<close> is the maximum over the starts of the records,
  which is the maximum over all instants (\<open>in_flight_le_max_in_flight\<close>,
  \<open>max_in_flight_attained\<close>).
\<close>

definition in_flight :: "Target list \<Rightarrow> int \<Rightarrow> nat" where
  "in_flight ts t = length (filter (\<lambda>r. start r \<le> t \<and> t < endt r) ts)"

definition max_in_flight :: "Target list \<Rightarrow> nat" where
  "max_in_flight ts = fold max (map (\<lambda>r. in_flight ts (start r)) ts) 0"

text \<open>The number of distinct slots of an invocation.\<close>

definition slots_used :: "Build \<Rightarrow> nat" where
  "slots_used b = length (remdups (List.map_filter thread (targets b)))"

text \<open>The tab-separated fields of a line, its trailing white space removed.\<close>

definition fields :: "string \<Rightarrow> string list" where
  "fields line = str_split TAB (rstrip line)"


subsection \<open>Invariants of the scheduler's loop\<close>

text \<open>
  \<open>P\<close> is the set of the targets already scheduled. Every scheduled target has a thread
  of the list whose end time is not before its end, and two scheduled targets on one
  thread do not overlap.
\<close>

definition sched_inv :: "nat \<Rightarrow> nat set \<Rightarrow> Target list \<times> int list \<Rightarrow> bool" where
  "sched_inv n P = (\<lambda>(ts, th).
     length ts = n \<and>
     (\<forall>k<n. start (ts ! k) \<le> endt (ts ! k)) \<and>
     (\<forall>k<n. k \<notin> P \<longrightarrow> thread (ts ! k) = None) \<and>
     (\<forall>k\<in>P. k < n \<and> (\<exists>j<length th. thread (ts ! k) = Some j \<and> endt (ts ! k) \<le> th ! j)) \<and>
     (\<forall>k\<in>P. \<forall>k'\<in>P. k \<noteq> k' \<and> thread (ts ! k) = thread (ts ! k') \<longrightarrow>
        endt (ts ! k) \<le> start (ts ! k') \<or> endt (ts ! k') \<le> start (ts ! k)))"

text \<open>
  For targets taken by ascending start: every thread of the list holds a scheduled target
  that ends at the thread's end time, no scheduled target starts after \<open>m\<close>, and at some
  instant as many scheduled targets are in flight as there are threads.
\<close>

definition flight_inv :: "Target list \<Rightarrow> nat set \<Rightarrow> int \<Rightarrow> Target list \<times> int list \<Rightarrow> bool" where
  "flight_inv ts0 P m = (\<lambda>(ts, th).
     (\<forall>k<length ts0. start (ts ! k) = start (ts0 ! k) \<and> endt (ts ! k) = endt (ts0 ! k)) \<and>
     (P = {} \<longrightarrow> th = [0]) \<and>
     (P \<noteq> {} \<longrightarrow> (\<forall>j<length th. \<exists>k\<in>P. thread (ts ! k) = Some j \<and> endt (ts0 ! k) = th ! j)) \<and>
     (\<forall>k\<in>P. start (ts0 ! k) \<le> m) \<and>
     (P \<noteq> {} \<longrightarrow> (\<exists>t. length th \<le> card {k\<in>P. start (ts0 ! k) \<le> t \<and> t < endt (ts0 ! k)})))"

section \<open>Run segmentation\<close>

lemma contains_name_iff: "contains_name ts t \<longleftrightarrow> (\<exists>r \<in> set ts. name r = name t)"
  by (induction ts) auto

text \<open>
  C3, as stated: with no end-time regression, a new invocation begins exactly when a
  record of the same name and the same content hash exists in the current invocation.
  This fails: the record \<open>X\<close> with hash \<open>h2\<close> arrives after the record \<open>X\<close> with
  hash \<open>h1\<close>, no record of its identity exists, its end 15 is not before the last end 5,
  and it starts a new invocation.
\<close>

theorem need_new_build_same_name_other_hash:
  "need_new_build
     \<lparr>targets = [mk_target 0 5 ''X'' ''h1''], current = None\<rparr> (mk_target 10 15 ''X'' ''h2'')
   \<and> \<not> has_identity
     \<lparr>targets = [mk_target 0 5 ''X'' ''h1''], current = None\<rparr> (mk_target 10 15 ''X'' ''h2'')
   \<and> endt (last [mk_target 0 5 ''X'' ''h1'']) \<le> endt (mk_target 10 15 ''X'' ''h2'')"
  by (simp add: need_new_build_def Build_contains_def has_identity_def Target_eq_def)

text \<open>
  C3, amended: for a non-empty current invocation and an incoming record whose end is not
  before the end of the last appended record, a new invocation begins exactly when a
  record of the same name exists in the current invocation; the content hash is not
  compared. The incoming record then opens a new build, and joins the last build
  otherwise.
\<close>

theorem need_new_build_no_regression:
  assumes "targets b \<noteq> []"
    and "endt (last (targets b)) \<le> endt t"
  shows "(need_new_build b t \<longleftrightarrow> (\<exists>r \<in> set (targets b). name r = name t))
    \<and> append_target (bs @ [b]) t =
        (if \<exists>r \<in> set (targets b). name r = name t
         then bs @ [b, \<lparr>targets = [t], current = None\<rparr>]
         else bs @ [b\<lparr>targets := targets b @ [t]\<rparr>])"
  using assms
  by (auto simp: need_new_build_def Build_contains_def contains_name_iff append_target_def
      add_target_def Build_init_def)

theorem need_new_build_no_regression_witness:
  "need_new_build
     \<lparr>targets = [mk_target 0 5 ''X'' ''h1''], current = None\<rparr> (mk_target 10 15 ''X'' ''h2'')
   \<and> \<not> need_new_build
     \<lparr>targets = [mk_target 0 5 ''X'' ''h1''], current = None\<rparr> (mk_target 10 15 ''Y'' ''h1'')
   \<and> append_target [\<lparr>targets = [mk_target 0 5 ''X'' ''h1''], current = None\<rparr>]
        (mk_target 10 15 ''X'' ''h2'')
      = [\<lparr>targets = [mk_target 0 5 ''X'' ''h1''], current = None\<rparr>,
         \<lparr>targets = [mk_target 10 15 ''X'' ''h2''], current = None\<rparr>]"
  using need_new_build_no_regression
    [of "\<lparr>targets = [mk_target 0 5 ''X'' ''h1''], current = None\<rparr>"
      "mk_target 10 15 ''X'' ''h2''" "[]"]
    need_new_build_no_regression
    [of "\<lparr>targets = [mk_target 0 5 ''X'' ''h1''], current = None\<rparr>"
      "mk_target 10 15 ''Y'' ''h1''" "[]"]
  by simp

text \<open>
  C4, as stated: when the current invocation holds no record of the same identity, a new
  invocation begins if and only if the end regresses. This fails: the record \<open>X\<close> with
  hash \<open>h2\<close> has no record of its identity before it and its end 12 is not before the
  last end 10, and it starts a new invocation.
\<close>

theorem need_new_build_regression_identity_counterexample:
  "\<not> has_identity
     \<lparr>targets = [mk_target 0 10 ''X'' ''h1''], current = None\<rparr> (mk_target 1 12 ''X'' ''h2'')
   \<and> need_new_build
     \<lparr>targets = [mk_target 0 10 ''X'' ''h1''], current = None\<rparr> (mk_target 1 12 ''X'' ''h2'')
   \<and> \<not> endt (mk_target 1 12 ''X'' ''h2'') < endt (last [mk_target 0 10 ''X'' ''h1''])"
  by (simp add: need_new_build_def Build_contains_def has_identity_def Target_eq_def)

text \<open>
  C4, amended: when the non-empty current invocation holds no record of the same name, a
  new invocation begins if and only if the end of the incoming record is strictly smaller
  than the end of the last appended record; the incoming record then opens a new build,
  and joins the last build otherwise.
\<close>

theorem need_new_build_regression:
  assumes "targets b \<noteq> []"
    and "\<not> (\<exists>r \<in> set (targets b). name r = name t)"
  shows "(need_new_build b t \<longleftrightarrow> endt t < endt (last (targets b)))
    \<and> append_target (bs @ [b]) t =
        (if endt t < endt (last (targets b))
         then bs @ [b, \<lparr>targets = [t], current = None\<rparr>]
         else bs @ [b\<lparr>targets := targets b @ [t]\<rparr>])"
  using assms
  by (auto simp: need_new_build_def Build_contains_def contains_name_iff append_target_def
      add_target_def Build_init_def)

theorem need_new_build_regression_witness:
  "need_new_build
     \<lparr>targets = [mk_target 0 10 ''A'' ''h1''], current = None\<rparr> (mk_target 1 5 ''B'' ''h2'')
   \<and> \<not> need_new_build
     \<lparr>targets = [mk_target 0 10 ''A'' ''h1''], current = None\<rparr> (mk_target 1 10 ''B'' ''h2'')
   \<and> append_target [\<lparr>targets = [mk_target 0 10 ''A'' ''h1''], current = None\<rparr>]
        (mk_target 1 5 ''B'' ''h2'')
      = [\<lparr>targets = [mk_target 0 10 ''A'' ''h1''], current = None\<rparr>,
         \<lparr>targets = [mk_target 1 5 ''B'' ''h2''], current = None\<rparr>]
   \<and> append_target [\<lparr>targets = [mk_target 0 10 ''A'' ''h1''], current = None\<rparr>]
        (mk_target 1 10 ''B'' ''h2'')
      = [\<lparr>targets = [mk_target 0 10 ''A'' ''h1'', mk_target 1 10 ''B'' ''h2''], current = None\<rparr>]"
  using need_new_build_regression
    [of "\<lparr>targets = [mk_target 0 10 ''A'' ''h1''], current = None\<rparr>"
      "mk_target 1 5 ''B'' ''h2''" "[]"]
    need_new_build_regression
    [of "\<lparr>targets = [mk_target 0 10 ''A'' ''h1''], current = None\<rparr>"
      "mk_target 1 10 ''B'' ''h2''" "[]"]
  by simp

section \<open>The scheduler\<close>


lemma scan_threads_Some:
  "scan_threads th s = Some j \<Longrightarrow> j < length th \<and> th ! j \<le> s"
  by (induction th arbitrary: j) (auto split: if_splits)

lemma scan_threads_None:
  "scan_threads th s = None \<Longrightarrow> \<forall>j < length th. s < th ! j"
proof (induction th)
  case Nil
  then show ?case by simp
next
  case (Cons a th)
  then show ?case by (auto split: if_splits simp: nth_Cons')
qed

lemma schedule_target_frame:
  assumes "i < length ts"
  shows "map unthreaded (fst (schedule_target i (ts, th))) = map unthreaded ts"
  using assms
  by (auto simp: schedule_target_def Let_def unthreaded_def map_update list_update_same_conv
      split: option.splits)

lemma schedule_target_length:
  "length (fst (schedule_target i (ts, th))) = length ts"
  by (auto simp: schedule_target_def Let_def split: option.splits)

lemma fold_schedule_frame:
  assumes "\<forall>i \<in> set is. i < length ts"
  shows "map unthreaded (fst (fold schedule_target is (ts, th))) = map unthreaded ts"
  using assms
proof (induction "is" arbitrary: ts th)
  case Nil
  then show ?case by simp
next
  case (Cons i "is")
  obtain ts' th' where s: "schedule_target i (ts, th) = (ts', th')"
    by (cases "schedule_target i (ts, th)")
  have len: "length ts' = length ts"
    using schedule_target_length[of i ts th] s by simp
  have "map unthreaded ts' = map unthreaded ts"
    using schedule_target_frame[of i ts th] Cons.prems s by simp
  moreover have "map unthreaded (fst (fold schedule_target is (ts', th'))) = map unthreaded ts'"
    using Cons.IH[of ts' th'] Cons.prems len by simp
  ultimately show ?case using s by simp
qed

lemma sched_inv_step:
  assumes inv: "sched_inv n P (ts, th)" and i: "i < n" "i \<notin> P"
  shows "sched_inv n (insert i P) (schedule_target i (ts, th))"
proof (cases "scan_threads th (start (ts ! i))")
  case None
  have tn: "thread (ts ! i) = None" using inv i by (simp add: sched_inv_def)
  have st: "schedule_target i (ts, th) =
      (ts[i := (ts ! i)\<lparr>thread := Some (length th)\<rparr>], th @ [endt (ts ! i)])"
    using None tn by (simp add: schedule_target_def Let_def)
  have len: "length ts = n" using inv by (simp add: sched_inv_def)
  have old: "\<And>k. k \<in> P \<Longrightarrow> k < n \<and> k \<noteq> i \<and> (\<exists>j<length th. thread (ts ! k) = Some j \<and> endt (ts ! k) \<le> th ! j)"
    using inv i by (auto simp: sched_inv_def)
  have pw: "\<And>k k'. k \<in> P \<Longrightarrow> k' \<in> P \<Longrightarrow> k \<noteq> k' \<Longrightarrow> thread (ts ! k) = thread (ts ! k') \<Longrightarrow>
        endt (ts ! k) \<le> start (ts ! k') \<or> endt (ts ! k') \<le> start (ts ! k)"
    using inv by (auto simp: sched_inv_def)
  have a: "\<forall>k<n. start (ts ! k) \<le> endt (ts ! k)" using inv by (simp add: sched_inv_def)
  have b: "\<forall>k<n. k \<notin> P \<longrightarrow> thread (ts ! k) = None" using inv by (simp add: sched_inv_def)
  show ?thesis
    unfolding st sched_inv_def
  proof (simp only: prod.case, intro conjI ballI allI impI)
    show "length (ts[i := (ts ! i)\<lparr>thread := Some (length th)\<rparr>]) = n" using len by simp
  next
    fix k assume "k < n"
    then show "start (ts[i := (ts ! i)\<lparr>thread := Some (length th)\<rparr>] ! k)
         \<le> endt (ts[i := (ts ! i)\<lparr>thread := Some (length th)\<rparr>] ! k)"
      using a len by (cases "k = i") auto
  next
    fix k assume "k < n" "k \<notin> insert i P"
    then show "thread (ts[i := (ts ! i)\<lparr>thread := Some (length th)\<rparr>] ! k) = None"
      using b len by auto
  next
    fix k assume "k \<in> insert i P"
    then show "k < n" using old i by auto
  next
    fix k assume k: "k \<in> insert i P"
    show "\<exists>j<length (th @ [endt (ts ! i)]).
            thread (ts[i := (ts ! i)\<lparr>thread := Some (length th)\<rparr>] ! k) = Some j \<and>
            endt (ts[i := (ts ! i)\<lparr>thread := Some (length th)\<rparr>] ! k) \<le> (th @ [endt (ts ! i)]) ! j"
    proof (cases "k = i")
      case True
      then show ?thesis using len i by (intro exI[of _ "length th"]) simp
    next
      case False
      then obtain j where "j < length th" "thread (ts ! k) = Some j" "endt (ts ! k) \<le> th ! j"
        using old k by blast
      then show ?thesis using False by (intro exI[of _ j]) (simp add: nth_append)
    qed
  next
    fix k k' assume kk: "k \<in> insert i P" "k' \<in> insert i P"
      "k \<noteq> k' \<and> thread (ts[i := (ts ! i)\<lparr>thread := Some (length th)\<rparr>] ! k) =
          thread (ts[i := (ts ! i)\<lparr>thread := Some (length th)\<rparr>] ! k')"
    show "endt (ts[i := (ts ! i)\<lparr>thread := Some (length th)\<rparr>] ! k)
            \<le> start (ts[i := (ts ! i)\<lparr>thread := Some (length th)\<rparr>] ! k') \<or>
          endt (ts[i := (ts ! i)\<lparr>thread := Some (length th)\<rparr>] ! k')
            \<le> start (ts[i := (ts ! i)\<lparr>thread := Some (length th)\<rparr>] ! k)"
    proof -
      consider "k = i" "k' \<in> P" | "k' = i" "k \<in> P" | "k \<in> P" "k' \<in> P"
        using kk by auto
      then show ?thesis
      proof cases
        case 1
        then show ?thesis using kk old[of k'] len i by auto
      next
        case 2
        then show ?thesis using kk old[of k] len i by auto
      next
        case 3
        then show ?thesis using kk old[of k] old[of k'] pw[of k k'] by auto
      qed
    qed
  qed
next
  case (Some j)
  have j: "j < length th" "th ! j \<le> start (ts ! i)"
    using scan_threads_Some[OF Some] by auto
  have st: "schedule_target i (ts, th) =
      (ts[i := (ts ! i)\<lparr>thread := Some j\<rparr>], th[j := endt (ts ! i)])"
    using Some by (simp add: schedule_target_def Let_def)
  have len: "length ts = n" using inv by (simp add: sched_inv_def)
  have old: "\<And>k. k \<in> P \<Longrightarrow> k < n \<and> k \<noteq> i \<and> (\<exists>j<length th. thread (ts ! k) = Some j \<and> endt (ts ! k) \<le> th ! j)"
    using inv i by (auto simp: sched_inv_def)
  have pw: "\<And>k k'. k \<in> P \<Longrightarrow> k' \<in> P \<Longrightarrow> k \<noteq> k' \<Longrightarrow> thread (ts ! k) = thread (ts ! k') \<Longrightarrow>
        endt (ts ! k) \<le> start (ts ! k') \<or> endt (ts ! k') \<le> start (ts ! k)"
    using inv by (auto simp: sched_inv_def)
  have a: "\<forall>k<n. start (ts ! k) \<le> endt (ts ! k)" using inv by (simp add: sched_inv_def)
  have b: "\<forall>k<n. k \<notin> P \<longrightarrow> thread (ts ! k) = None" using inv by (simp add: sched_inv_def)
  let ?ts = "ts[i := (ts ! i)\<lparr>thread := Some j\<rparr>]"
  let ?th = "th[j := endt (ts ! i)]"
  have new: "thread (?ts ! i) = Some j" "start (?ts ! i) = start (ts ! i)" "endt (?ts ! i) = endt (ts ! i)"
    using len i by auto
  have same: "\<And>k. k \<noteq> i \<Longrightarrow> ?ts ! k = ts ! k" by simp
  show ?thesis
    unfolding st sched_inv_def
  proof (simp only: prod.case, intro conjI ballI allI impI)
    show "length ?ts = n" using len by simp
  next
    fix k assume "k < n"
    then show "start (?ts ! k) \<le> endt (?ts ! k)"
      using a len by (cases "k = i") auto
  next
    fix k assume "k < n" "k \<notin> insert i P"
    then show "thread (?ts ! k) = None"
      using b len by auto
  next
    fix k assume "k \<in> insert i P"
    then show "k < n" using old i by auto
  next
    fix k assume k: "k \<in> insert i P"
    show "\<exists>j'<length ?th. thread (?ts ! k) = Some j' \<and> endt (?ts ! k) \<le> ?th ! j'"
    proof (cases "k = i")
      case True
      then show ?thesis using new j by (intro exI[of _ j]) simp
    next
      case False
      then obtain j' where j': "j' < length th" "thread (ts ! k) = Some j'" "endt (ts ! k) \<le> th ! j'"
        using old k by blast
      have "th ! j' \<le> ?th ! j'"
        using j a i by (cases "j' = j") (auto simp: nth_list_update)
      then show ?thesis using False j' by (intro exI[of _ j']) (simp add: same)
    qed
  next
    fix k k' assume kk: "k \<in> insert i P" "k' \<in> insert i P"
      "k \<noteq> k' \<and> thread (?ts ! k) = thread (?ts ! k')"
    show "endt (?ts ! k) \<le> start (?ts ! k') \<or> endt (?ts ! k') \<le> start (?ts ! k)"
    proof -
      consider "k = i" "k' \<in> P" | "k' = i" "k \<in> P" | "k \<in> P" "k' \<in> P"
        using kk by auto
      then show ?thesis
      proof cases
        case 1
        then have "k' \<noteq> i" using i by auto
        then have "thread (ts ! k') = Some j" using kk 1 new same by auto
        then have "endt (ts ! k') \<le> th ! j" using old[OF 1(2)] by auto
        then show ?thesis using j 1 new same \<open>k' \<noteq> i\<close> by auto
      next
        case 2
        then have "k \<noteq> i" using i by auto
        then have "thread (ts ! k) = Some j" using kk 2 new same by auto
        then have "endt (ts ! k) \<le> th ! j" using old[OF 2(2)] by auto
        then show ?thesis using j 2 new same \<open>k \<noteq> i\<close> by auto
      next
        case 3
        then show ?thesis using kk old[of k] old[of k'] pw[of k k'] same by auto
      qed
    qed
  qed
qed

lemma sched_inv_fold:
  assumes "sched_inv n P s" "distinct is" "set is \<inter> P = {}" "\<forall>i \<in> set is. i < n"
  shows "sched_inv n (P \<union> set is) (fold schedule_target is s)"
  using assms
proof (induction "is" arbitrary: P s)
  case Nil
  then show ?case by simp
next
  case (Cons i "is")
  obtain ts th where s: "s = (ts, th)" by (cases s)
  have "sched_inv n (insert i P) (schedule_target i s)"
    using sched_inv_step[of n P ts th i] Cons.prems s by auto
  then have "sched_inv n (insert i P \<union> set is) (fold schedule_target is (schedule_target i s))"
    using Cons.IH[of "insert i P" "schedule_target i s"] Cons.prems by auto
  then show ?case by simp
qed

lemma sorted_targets_perm:
  "distinct (sorted_targets ts)" "set (sorted_targets ts) = {..<length ts}"
  by (auto simp: sorted_targets_def)

lemma flight_inv_step:
  assumes inv: "sched_inv (length ts0) P (ts, th)"
    and fl: "flight_inv ts0 P m (ts, th)"
    and i: "i < length ts0" "i \<notin> P"
    and fin: "finite P"
    and pos: "\<forall>k<length ts0. 0 \<le> start (ts0 ! k) \<and> start (ts0 ! k) < endt (ts0 ! k)"
    and m: "m \<le> start (ts0 ! i)"
  shows "flight_inv ts0 (insert i P) (start (ts0 ! i)) (schedule_target i (ts, th))"
proof -
  let ?s = "start (ts0 ! i)" and ?e = "endt (ts0 ! i)"
  have len: "length ts = length ts0" using inv by (simp add: sched_inv_def)
  have se: "\<forall>k<length ts0. start (ts ! k) = start (ts0 ! k) \<and> endt (ts ! k) = endt (ts0 ! k)"
    using fl by (simp add: flight_inv_def)
  have si: "start (ts ! i) = ?s" "endt (ts ! i) = ?e" using se i by auto
  have empty: "P = {} \<Longrightarrow> th = [0]" using fl by (simp add: flight_inv_def)
  have occ: "\<And>j. P \<noteq> {} \<Longrightarrow> j < length th \<Longrightarrow> \<exists>k\<in>P. thread (ts ! k) = Some j \<and> endt (ts0 ! k) = th ! j"
    using fl by (simp add: flight_inv_def)
  have lo: "\<And>k. k \<in> P \<Longrightarrow> start (ts0 ! k) \<le> m" using fl by (simp add: flight_inv_def)
  have cnt: "P \<noteq> {} \<Longrightarrow> \<exists>t. length th \<le> card {k\<in>P. start (ts0 ! k) \<le> t \<and> t < endt (ts0 ! k)}"
    using fl by (simp add: flight_inv_def)
  have Pn: "\<And>k. k \<in> P \<Longrightarrow> k < length ts0 \<and> k \<noteq> i" using inv i by (auto simp: sched_inv_def)
  have tn: "thread (ts ! i) = None" using inv i by (simp add: sched_inv_def)
  have mono: "\<And>t. card {k\<in>P. start (ts0 ! k) \<le> t \<and> t < endt (ts0 ! k)}
        \<le> card {k\<in>insert i P. start (ts0 ! k) \<le> t \<and> t < endt (ts0 ! k)}"
    using fin by (intro card_mono) auto
  have self: "1 \<le> card {k\<in>insert i P. start (ts0 ! k) \<le> ?s \<and> ?s < endt (ts0 ! k)}"
  proof -
    have "{i} \<subseteq> {k\<in>insert i P. start (ts0 ! k) \<le> ?s \<and> ?s < endt (ts0 ! k)}"
      using pos i by auto
    then have "card {i} \<le> card {k\<in>insert i P. start (ts0 ! k) \<le> ?s \<and> ?s < endt (ts0 ! k)}"
      using fin by (intro card_mono) auto
    then show ?thesis by simp
  qed
  show ?thesis
  proof (cases "scan_threads th (start (ts ! i))")
    case None
    have st: "schedule_target i (ts, th) =
        (ts[i := (ts ! i)\<lparr>thread := Some (length th)\<rparr>], th @ [?e])"
      using None tn si by (simp add: schedule_target_def Let_def)
    let ?ts = "ts[i := (ts ! i)\<lparr>thread := Some (length th)\<rparr>]"
    have busy: "\<forall>j<length th. ?s < th ! j" using scan_threads_None[OF None] si by simp
    have ne: "P \<noteq> {}"
    proof
      assume "P = {}"
      then have "th = [0]" using empty by simp
      then show False using busy pos i by auto
    qed
    have same: "\<And>k. k \<noteq> i \<Longrightarrow> ?ts ! k = ts ! k" by simp
    have new: "thread (?ts ! i) = Some (length th)" using len i by simp
    have c1: "\<forall>k<length ts0. start (?ts ! k) = start (ts0 ! k) \<and> endt (?ts ! k) = endt (ts0 ! k)"
      using se len i by (auto simp: nth_list_update)
    have c3: "\<forall>j<length (th @ [?e]). \<exists>k\<in>insert i P. thread (?ts ! k) = Some j \<and> endt (ts0 ! k) = (th @ [?e]) ! j"
    proof (intro allI impI)
      fix j assume "j < length (th @ [?e])"
      then consider "j < length th" | "j = length th" by fastforce
      then show "\<exists>k\<in>insert i P. thread (?ts ! k) = Some j \<and> endt (ts0 ! k) = (th @ [?e]) ! j"
      proof cases
        case 1
        then obtain k where "k \<in> P" "thread (ts ! k) = Some j" "endt (ts0 ! k) = th ! j"
          using occ[OF ne] by blast
        then show ?thesis using 1 Pn[of k] same[of k] by (intro bexI[of _ k]) (auto simp: nth_append)
      next
        case 2
        then show ?thesis using new by (intro bexI[of _ i]) auto
      qed
    qed
    have c4: "\<forall>k\<in>insert i P. start (ts0 ! k) \<le> ?s" using lo m by fastforce
    have c5: "\<exists>t. length (th @ [?e]) \<le> card {k\<in>insert i P. start (ts0 ! k) \<le> t \<and> t < endt (ts0 ! k)}"
    proof -
      have "\<forall>j\<in>{..<length th}. \<exists>k. k\<in>P \<and> thread (ts ! k) = Some j \<and> endt (ts0 ! k) = th ! j"
        using occ[OF ne] by blast
      then obtain f where f: "\<forall>j\<in>{..<length th}. f j \<in> P \<and> thread (ts ! f j) = Some j \<and> endt (ts0 ! f j) = th ! j"
        by (rule bchoice[THEN exE]) blast
      have inj: "inj_on f {..<length th}"
        by (rule inj_onI) (metis f option.inject)
      let ?A = "{k\<in>insert i P. start (ts0 ! k) \<le> ?s \<and> ?s < endt (ts0 ! k)}"
      have sub: "insert i (f ` {..<length th}) \<subseteq> ?A"
      proof
        fix k assume "k \<in> insert i (f ` {..<length th})"
        then consider "k = i" | j where "j < length th" "k = f j" by auto
        then show "k \<in> ?A"
        proof cases
          case 1
          then show ?thesis using pos i by auto
        next
          case 2
          then have "k \<in> P" "endt (ts0 ! k) = th ! j" using f by auto
          then show ?thesis using lo[of k] m busy 2 by auto
        qed
      qed
      have "i \<notin> f ` {..<length th}" using f i by auto
      then have "card (insert i (f ` {..<length th})) = Suc (length th)"
        using inj by (simp add: card_image)
      moreover have "card (insert i (f ` {..<length th})) \<le> card ?A"
        using sub fin by (intro card_mono) auto
      ultimately show ?thesis by (intro exI[of _ ?s]) simp
    qed
    show ?thesis unfolding st flight_inv_def using c1 c3 c4 c5 by simp
  next
    case (Some j)
    have j: "j < length th" "th ! j \<le> ?s"
      using scan_threads_Some[OF Some] si by auto
    have st: "schedule_target i (ts, th) = (ts[i := (ts ! i)\<lparr>thread := Some j\<rparr>], th[j := ?e])"
      using Some si by (simp add: schedule_target_def Let_def)
    let ?ts = "ts[i := (ts ! i)\<lparr>thread := Some j\<rparr>]"
    have same: "\<And>k. k \<noteq> i \<Longrightarrow> ?ts ! k = ts ! k" by simp
    have new: "thread (?ts ! i) = Some j" using len i by simp
    have c1: "\<forall>k<length ts0. start (?ts ! k) = start (ts0 ! k) \<and> endt (?ts ! k) = endt (ts0 ! k)"
      using se len i by (auto simp: nth_list_update)
    have c3: "\<forall>j'<length (th[j := ?e]). \<exists>k\<in>insert i P. thread (?ts ! k) = Some j' \<and> endt (ts0 ! k) = (th[j := ?e]) ! j'"
    proof (intro allI impI)
      fix j' assume j': "j' < length (th[j := ?e])"
      show "\<exists>k\<in>insert i P. thread (?ts ! k) = Some j' \<and> endt (ts0 ! k) = (th[j := ?e]) ! j'"
      proof (cases "j' = j")
        case True
        then show ?thesis using new j by (intro bexI[of _ i]) auto
      next
        case False
        have ne: "P \<noteq> {}"
        proof
          assume "P = {}"
          then have "th = [0]" using empty by simp
          then show False using j j' False by auto
        qed
        then obtain k where "k \<in> P" "thread (ts ! k) = Some j'" "endt (ts0 ! k) = th ! j'"
          using occ j' by fastforce
        then show ?thesis using False Pn[of k] same[of k] by (intro bexI[of _ k]) auto
      qed
    qed
    have c4: "\<forall>k\<in>insert i P. start (ts0 ! k) \<le> ?s" using lo m by fastforce
    have c5: "\<exists>t. length (th[j := ?e]) \<le> card {k\<in>insert i P. start (ts0 ! k) \<le> t \<and> t < endt (ts0 ! k)}"
    proof (cases "P = {}")
      case True
      then have "length th = 1" using empty by simp
      then show ?thesis using self by (intro exI[of _ ?s]) simp
    next
      case False
      then obtain t where "length th \<le> card {k\<in>P. start (ts0 ! k) \<le> t \<and> t < endt (ts0 ! k)}"
        using cnt by blast
      then show ?thesis using mono[of t] by (intro exI[of _ t]) simp
    qed
    show ?thesis unfolding st flight_inv_def using c1 c3 c4 c5 by simp
  qed
qed

lemma fold_max_ge_init: "(a::nat) \<le> fold max xs a"
proof (induction xs arbitrary: a)
  case Nil
  then show ?case by simp
next
  case (Cons x xs)
  have "max x a \<le> fold max xs (max x a)" by (rule Cons.IH)
  then show ?case by simp
qed

lemma fold_max_ge_elem: "x \<in> set xs \<Longrightarrow> (x::nat) \<le> fold max xs a"
proof (induction xs arbitrary: a)
  case Nil
  then show ?case by simp
next
  case (Cons y xs)
  show ?case
  proof (cases "x = y")
    case True
    have "max y a \<le> fold max xs (max y a)" by (rule fold_max_ge_init)
    then show ?thesis using True by simp
  next
    case False
    then have "x \<in> set xs" using Cons.prems by simp
    then show ?thesis using Cons.IH by simp
  qed
qed

lemma fold_max_in: "fold max xs (a::nat) = a \<or> fold max xs a \<in> set xs"
proof (induction xs arbitrary: a)
  case Nil
  then show ?case by simp
next
  case (Cons x xs)
  have ih: "fold max xs (max x a) = max x a \<or> fold max xs (max x a) \<in> set xs" by (rule Cons.IH)
  have "max x a = a \<or> max x a = x" by (simp add: max_def)
  then show ?case using ih by (cases "max x a = a") auto
qed

lemma length_filter_mono:
  "(\<And>x. x \<in> set xs \<Longrightarrow> P x \<Longrightarrow> Q x) \<Longrightarrow> length (filter P xs) \<le> length (filter Q xs)"
  by (induction xs) auto

lemma in_flight_le_max_in_flight: "in_flight ts t \<le> max_in_flight ts"
proof (cases "in_flight ts t = 0")
  case True
  then show ?thesis by simp
next
  case False
  let ?F = "{r \<in> set ts. start r \<le> t \<and> t < endt r}"
  have ne: "?F \<noteq> {}"
    using False by (auto simp: in_flight_def filter_empty_conv)
  have fin: "finite (start ` ?F)" by simp
  have "Max (start ` ?F) \<in> start ` ?F" using ne fin by (intro Max_in) auto
  then obtain r where r: "r \<in> set ts" "start r \<le> t" "t < endt r" "start r = Max (start ` ?F)"
    by auto
  have "in_flight ts t \<le> in_flight ts (start r)"
    unfolding in_flight_def
  proof (rule length_filter_mono)
    fix x assume x: "x \<in> set ts" "start x \<le> t \<and> t < endt x"
    then have "start x \<in> start ` ?F" by auto
    then have "start x \<le> Max (start ` ?F)" using fin by (intro Max_ge)
    then show "start x \<le> start r \<and> start r < endt x" using r x by auto
  qed
  also have "in_flight ts (start r) \<le> max_in_flight ts"
    unfolding max_in_flight_def using r(1) by (intro fold_max_ge_elem) auto
  finally show ?thesis .
qed

lemma max_in_flight_attained: "\<exists>t. in_flight ts t = max_in_flight ts"
proof -
  let ?xs = "map (\<lambda>r. in_flight ts (start r)) ts"
  have "fold max ?xs 0 = 0 \<or> fold max ?xs 0 \<in> set ?xs" by (rule fold_max_in)
  then show ?thesis
  proof
    assume z: "fold max ?xs 0 = 0"
    show ?thesis
    proof (cases ts)
      case Nil
      then show ?thesis by (simp add: in_flight_def max_in_flight_def)
    next
      case (Cons r rs)
      have "in_flight ts (start r) \<le> max_in_flight ts" by (rule in_flight_le_max_in_flight)
      then have "in_flight ts (start r) = max_in_flight ts"
        using z by (simp add: max_in_flight_def)
      then show ?thesis by blast
    qed
  next
    assume "fold max ?xs 0 \<in> set ?xs"
    then show ?thesis by (auto simp: max_in_flight_def)
  qed
qed

lemma sched_flight_fold:
  assumes "sched_inv (length ts0) P s" "flight_inv ts0 P m s"
    and "distinct is" "set is \<inter> P = {}" "\<forall>i \<in> set is. i < length ts0" "finite P"
    and pos: "\<forall>k<length ts0. 0 \<le> start (ts0 ! k) \<and> start (ts0 ! k) < endt (ts0 ! k)"
    and "sorted (map (\<lambda>i. start (ts0 ! i)) is)" "\<forall>i \<in> set is. m \<le> start (ts0 ! i)"
  shows "\<exists>m'. flight_inv ts0 (P \<union> set is) m' (fold schedule_target is s)"
  using assms(1-6,8,9)
proof (induction "is" arbitrary: P s m)
  case Nil
  then show ?case by auto
next
  case (Cons i "is")
  obtain ts th where s: "s = (ts, th)" by (cases s)
  have i: "i < length ts0" "i \<notin> P" using Cons.prems by auto
  have 1: "sched_inv (length ts0) (insert i P) (schedule_target i s)"
    using sched_inv_step[of "length ts0" P ts th i] Cons.prems(1) i s by simp
  have 2: "flight_inv ts0 (insert i P) (start (ts0 ! i)) (schedule_target i s)"
    using flight_inv_step[of ts0 P ts th m i] Cons.prems i s pos by simp
  have "\<exists>m'. flight_inv ts0 (insert i P \<union> set is) m' (fold schedule_target is (schedule_target i s))"
  proof (rule Cons.IH[OF 1 2])
    show "distinct is" using Cons.prems by simp
    show "set is \<inter> insert i P = {}" using Cons.prems by auto
    show "\<forall>i\<in>set is. i < length ts0" using Cons.prems by simp
    show "finite (insert i P)" using Cons.prems by simp
    show "sorted (map (\<lambda>i. start (ts0 ! i)) is)" using Cons.prems by simp
    show "\<forall>i'\<in>set is. start (ts0 ! i) \<le> start (ts0 ! i')" using Cons.prems by simp
  qed
  then show ?case by simp
qed

lemma fresh_nth: "fresh b \<Longrightarrow> k < length (targets b) \<Longrightarrow> thread (targets b ! k) = None"
  by (simp add: fresh_def list_all_length)

lemma sched_inv_init:
  assumes "\<forall>k<length ts0. start (ts0 ! k) \<le> endt (ts0 ! k)"
    and "\<forall>k<length ts0. thread (ts0 ! k) = None"
  shows "sched_inv (length ts0) {} (ts0, [0])"
  using assms by (simp add: sched_inv_def)

lemma sched_inv_final:
  assumes "\<forall>k<length ts0. start (ts0 ! k) \<le> endt (ts0 ! k)"
    and "\<forall>k<length ts0. thread (ts0 ! k) = None"
  shows "sched_inv (length ts0) {..<length ts0} (fold schedule_target (sorted_targets ts0) (ts0, [0]))"
proof -
  have "sched_inv (length ts0) ({} \<union> set (sorted_targets ts0))
          (fold schedule_target (sorted_targets ts0) (ts0, [0]))"
    by (rule sched_inv_fold[OF sched_inv_init[OF assms]]) (auto simp: sorted_targets_perm)
  then show ?thesis by (simp add: sorted_targets_perm)
qed

lemma flight_inv_final:
  assumes pos: "\<forall>k<length ts0. 0 \<le> start (ts0 ! k) \<and> start (ts0 ! k) < endt (ts0 ! k)"
    and "\<forall>k<length ts0. thread (ts0 ! k) = None"
  shows "\<exists>m. flight_inv ts0 {..<length ts0} m (fold schedule_target (sorted_targets ts0) (ts0, [0]))"
proof -
  have le: "\<forall>k<length ts0. start (ts0 ! k) \<le> endt (ts0 ! k)" using pos by auto
  have f0: "flight_inv ts0 {} 0 (ts0, [0])" by (simp add: flight_inv_def)
  have "\<exists>m. flight_inv ts0 ({} \<union> set (sorted_targets ts0)) m
          (fold schedule_target (sorted_targets ts0) (ts0, [0]))"
  proof (rule sched_flight_fold[OF sched_inv_init[OF le assms(2)] f0 _ _ _ _ pos])
    show "sorted (map (\<lambda>i. start (ts0 ! i)) (sorted_targets ts0))"
      by (simp add: sorted_targets_def)
    show "\<forall>i\<in>set (sorted_targets ts0). 0 \<le> start (ts0 ! i)"
      using pos by (simp add: sorted_targets_perm)
  qed (auto simp: sorted_targets_perm)
  then show ?thesis by (simp add: sorted_targets_perm)
qed

lemma schedule_target_keeps_thread:
  assumes "i < length ts" "k < length ts" "k = i \<or> thread (ts ! k) \<noteq> None"
  shows "thread (fst (schedule_target i (ts, th)) ! k) \<noteq> None"
  using assms
  by (cases "k = i") (auto simp: schedule_target_def Let_def split: option.splits)

lemma fold_schedule_threads:
  assumes "\<forall>i \<in> set is. i < length ts" "k < length ts" "k \<in> set is \<or> thread (ts ! k) \<noteq> None"
  shows "thread (fst (fold schedule_target is (ts, th)) ! k) \<noteq> None"
  using assms
proof (induction "is" arbitrary: ts th)
  case Nil
  then show ?case by simp
next
  case (Cons i "is")
  obtain ts' th' where s: "schedule_target i (ts, th) = (ts', th')"
    by (cases "schedule_target i (ts, th)")
  have len: "length ts' = length ts"
    using schedule_target_length[of i ts th] s by simp
  have "k \<in> set is \<or> thread (ts' ! k) \<noteq> None"
  proof (cases "k \<in> set is")
    case True
    then show ?thesis by simp
  next
    case False
    then have "k = i \<or> thread (ts ! k) \<noteq> None" using Cons.prems by auto
    then show ?thesis
      using schedule_target_keeps_thread[of i ts k th] Cons.prems s by simp
  qed
  then have "thread (fst (fold schedule_target is (ts', th')) ! k) \<noteq> None"
    using Cons.IH[of ts' th'] Cons.prems len by simp
  then show ?case using s by simp
qed

lemma fold_schedule_length:
  "length (fst (fold schedule_target is (ts, th))) = length ts"
proof (induction "is" arbitrary: ts th)
  case Nil
  then show ?case by simp
next
  case (Cons i "is")
  obtain ts' th' where s: "schedule_target i (ts, th) = (ts', th')"
    by (cases "schedule_target i (ts, th)")
  then show ?case using Cons.IH[of ts' th'] schedule_target_length[of i ts th] by simp
qed

text \<open>
  C10: the scheduler changes nothing but the slots. The records of the returned
  invocation are the records of the given one, in the same order, with the same start,
  end, name and hash (all fields but the thread); the cursor of the invocation is
  unchanged; and every record has a slot, a position in the list of threads, hence a
  natural number. This holds for every invocation, whatever the slots were before.
\<close>

theorem assign_threads_frame:
  "map unthreaded (targets (assign_threads b)) = map unthreaded (targets b)
   \<and> current (assign_threads b) = current b
   \<and> list_all (\<lambda>t. thread t \<noteq> None) (targets (assign_threads b))"
proof -
  let ?ts = "targets b"
  let ?r = "fst (fold schedule_target (sorted_targets ?ts) (?ts, [0]))"
  have idx: "\<forall>i \<in> set (sorted_targets ?ts). i < length ?ts"
    by (simp add: sorted_targets_perm)
  have 1: "map unthreaded ?r = map unthreaded ?ts"
    by (rule fold_schedule_frame[OF idx])
  have len: "length ?r = length ?ts" by (rule fold_schedule_length)
  have "\<forall>k<length ?r. thread (?r ! k) \<noteq> None"
  proof (intro allI impI)
    fix k assume "k < length ?r"
    then have k: "k < length ?ts" using len by simp
    then have "k \<in> set (sorted_targets ?ts)" by (simp add: sorted_targets_perm)
    then show "thread (?r ! k) \<noteq> None"
      using fold_schedule_threads[OF idx k] by blast
  qed
  then have 2: "list_all (\<lambda>t. thread t \<noteq> None) ?r" by (simp add: list_all_length)
  show ?thesis using 1 2 by (simp add: assign_threads_def)
qed

text \<open>
  C1: in an invocation whose records all satisfy \<open>end \<ge> start\<close> and, as the reader
  creates them, have no slot yet, any two distinct records that the scheduler puts on the
  same slot do not overlap: the end of one is at most the start of the other.
\<close>

theorem assign_threads_no_overlap:
  assumes "list_all (\<lambda>t. start t \<le> endt t) (targets b)"
    and "fresh b"
    and "i < length (targets b)" "j < length (targets b)" "i \<noteq> j"
    and "thread (targets (assign_threads b) ! i) = thread (targets (assign_threads b) ! j)"
  shows "endt (targets (assign_threads b) ! i) \<le> start (targets (assign_threads b) ! j)
       \<or> endt (targets (assign_threads b) ! j) \<le> start (targets (assign_threads b) ! i)"
proof -
  let ?ts = "targets b"
  obtain ts' th' where r: "fold schedule_target (sorted_targets ?ts) (?ts, [0]) = (ts', th')"
    by (cases "fold schedule_target (sorted_targets ?ts) (?ts, [0])")
  have "sched_inv (length ?ts) {..<length ?ts} (ts', th')"
    using sched_inv_final[of ?ts] assms(1,2) r by (simp add: list_all_length fresh_def)
  then have "\<forall>k\<in>{..<length ?ts}. \<forall>k'\<in>{..<length ?ts}. k \<noteq> k' \<and> thread (ts' ! k) = thread (ts' ! k') \<longrightarrow>
        endt (ts' ! k) \<le> start (ts' ! k') \<or> endt (ts' ! k') \<le> start (ts' ! k)"
    by (simp add: sched_inv_def)
  moreover have "targets (assign_threads b) = ts'" using r by (simp add: assign_threads_def)
  ultimately show ?thesis using assms(3-6) by auto
qed

theorem assign_threads_no_overlap_witness:
  "thread (targets (assign_threads
      \<lparr>targets = [mk_target 0 10 ''a'' ''h1'', mk_target 2 8 ''b'' ''h2'', mk_target 12 15 ''c'' ''h3''],
       current = None\<rparr>) ! 0) = Some 0
   \<and> thread (targets (assign_threads
      \<lparr>targets = [mk_target 0 10 ''a'' ''h1'', mk_target 2 8 ''b'' ''h2'', mk_target 12 15 ''c'' ''h3''],
       current = None\<rparr>) ! 2) = Some 0
   \<and> (endt (targets (assign_threads
      \<lparr>targets = [mk_target 0 10 ''a'' ''h1'', mk_target 2 8 ''b'' ''h2'', mk_target 12 15 ''c'' ''h3''],
       current = None\<rparr>) ! 0)
     \<le> start (targets (assign_threads
      \<lparr>targets = [mk_target 0 10 ''a'' ''h1'', mk_target 2 8 ''b'' ''h2'', mk_target 12 15 ''c'' ''h3''],
       current = None\<rparr>) ! 2)
     \<or> endt (targets (assign_threads
      \<lparr>targets = [mk_target 0 10 ''a'' ''h1'', mk_target 2 8 ''b'' ''h2'', mk_target 12 15 ''c'' ''h3''],
       current = None\<rparr>) ! 2)
     \<le> start (targets (assign_threads
      \<lparr>targets = [mk_target 0 10 ''a'' ''h1'', mk_target 2 8 ''b'' ''h2'', mk_target 12 15 ''c'' ''h3''],
       current = None\<rparr>) ! 0))"
proof -
  let ?b = "\<lparr>targets = [mk_target 0 10 ''a'' ''h1'', mk_target 2 8 ''b'' ''h2'', mk_target 12 15 ''c'' ''h3''],
       current = None\<rparr>"
  have t0: "thread (targets (assign_threads ?b) ! 0) = Some 0" by code_simp
  have t2: "thread (targets (assign_threads ?b) ! 2) = Some 0" by code_simp
  have h1: "list_all (\<lambda>t. start t \<le> endt t) (targets ?b)" by simp
  have h2: "fresh ?b" by (simp add: fresh_def)
  have h3: "0 < length (targets ?b)" "2 < length (targets ?b)" "(0::nat) \<noteq> 2" by simp_all
  have h4: "thread (targets (assign_threads ?b) ! 0) = thread (targets (assign_threads ?b) ! 2)"
    using t0 t2 by simp
  show ?thesis
    using assign_threads_no_overlap[OF h1 h2 h3 h4] t0 t2 by simp
qed

lemma set_map_filter_thread:
  "set (List.map_filter f xs) = {y. \<exists>x \<in> set xs. f x = Some y}"
  by (induction xs) (auto split: option.splits)

lemma assign_threads_slots:
  assumes fr: "fresh b"
    and pos: "list_all (\<lambda>t. 0 \<le> start t \<and> start t < endt t) (targets b)"
    and ne: "targets b \<noteq> []"
    and r: "fold schedule_target (sorted_targets (targets b)) (targets b, [0]) = (ts', th')"
  shows "slots_used (assign_threads b) = length th'"
    and "\<exists>t. length th' \<le> in_flight (targets b) t"
    and "in_flight (targets b) t \<le> length th'"
proof -
  let ?ts = "targets b" and ?n = "length (targets b)"
  have pos': "\<forall>k<?n. 0 \<le> start (?ts ! k) \<and> start (?ts ! k) < endt (?ts ! k)"
    using pos by (simp add: list_all_length)
  have le: "\<forall>k<?n. start (?ts ! k) \<le> endt (?ts ! k)" using pos' by auto
  have none: "\<forall>k<?n. thread (?ts ! k) = None" using fr by (simp add: fresh_def list_all_length)
  have si: "sched_inv ?n {..<?n} (ts', th')" using sched_inv_final[OF le none] r by simp
  obtain m where fi: "flight_inv ?ts {..<?n} m (ts', th')"
    using flight_inv_final[OF pos' none] r by auto
  have len: "length ts' = ?n" using si by (simp add: sched_inv_def)
  have P: "{..<?n} \<noteq> {}" using ne by auto
  have thr: "\<And>k. k < ?n \<Longrightarrow> \<exists>j<length th'. thread (ts' ! k) = Some j"
    using si by (auto simp: sched_inv_def)
  have occ: "\<And>j. j < length th' \<Longrightarrow> \<exists>k<?n. thread (ts' ! k) = Some j"
    using fi P by (simp add: flight_inv_def) blast
  have se: "\<And>k. k < ?n \<Longrightarrow> start (ts' ! k) = start (?ts ! k) \<and> endt (ts' ! k) = endt (?ts ! k)"
    using fi by (simp add: flight_inv_def)
  have pw: "\<And>k k'. k < ?n \<Longrightarrow> k' < ?n \<Longrightarrow> k \<noteq> k' \<Longrightarrow> thread (ts' ! k) = thread (ts' ! k') \<Longrightarrow>
        endt (ts' ! k) \<le> start (ts' ! k') \<or> endt (ts' ! k') \<le> start (ts' ! k)"
    using si by (simp add: sched_inv_def)
  have flight: "\<And>t. in_flight ?ts t = card {k. k < ?n \<and> start (?ts ! k) \<le> t \<and> t < endt (?ts ! k)}"
    by (simp add: in_flight_def length_filter_conv_card)
  have "set (List.map_filter thread ts') = {..<length th'}"
  proof (intro set_eqI iffI)
    fix j assume "j \<in> set (List.map_filter thread ts')"
    then obtain x where "x \<in> set ts'" "thread x = Some j"
      by (auto simp: set_map_filter_thread)
    then obtain k where "k < ?n" "thread (ts' ! k) = Some j"
      using len by (auto simp: in_set_conv_nth)
    then show "j \<in> {..<length th'}" using thr[of k] by auto
  next
    fix j assume "j \<in> {..<length th'}"
    then obtain k where "k < ?n" "thread (ts' ! k) = Some j" using occ by auto
    then have "ts' ! k \<in> set ts'" "thread (ts' ! k) = Some j" using len by auto
    then show "j \<in> set (List.map_filter thread ts')"
      unfolding set_map_filter_thread by blast
  qed
  then have "card (set (List.map_filter thread ts')) = length th'" by simp
  moreover have "targets (assign_threads b) = ts'" using r by (simp add: assign_threads_def)
  ultimately show "slots_used (assign_threads b) = length th'"
    by (simp add: slots_used_def length_remdups_card_conv)
  have "\<exists>t. length th' \<le> card {k\<in>{..<?n}. start (?ts ! k) \<le> t \<and> t < endt (?ts ! k)}"
    using fi P by (simp add: flight_inv_def)
  then show "\<exists>t. length th' \<le> in_flight ?ts t" by (simp add: flight)
  let ?A = "{k. k < ?n \<and> start (?ts ! k) \<le> t \<and> t < endt (?ts ! k)}"
  have inj: "inj_on (\<lambda>k. thread (ts' ! k)) ?A"
  proof (rule inj_onI)
    fix k k' assume a: "k \<in> ?A" "k' \<in> ?A" "thread (ts' ! k) = thread (ts' ! k')"
    show "k = k'"
    proof (rule ccontr)
      assume "k \<noteq> k'"
      then have "endt (ts' ! k) \<le> start (ts' ! k') \<or> endt (ts' ! k') \<le> start (ts' ! k)"
        using pw[of k k'] a by simp
      then show False using a se[of k] se[of k'] by auto
    qed
  qed
  have img: "(\<lambda>k. thread (ts' ! k)) ` ?A \<subseteq> Some ` {..<length th'}"
    using thr by auto
  have "card ?A \<le> card (Some ` {..<length th'})"
    by (rule card_inj_on_le[OF inj img]) simp
  also have "\<dots> = length th'" by (simp add: card_image)
  finally show "in_flight ?ts t \<le> length th'" by (simp add: flight)
qed

text \<open>
  C2, amended: in an invocation whose records all satisfy \<open>0 \<le> start < end\<close> and have
  no slot yet, the number of distinct slots that the scheduler assigns is the maximum
  number of records in flight at any instant.
\<close>

theorem assign_threads_minimal:
  assumes "fresh b"
    and "list_all (\<lambda>t. 0 \<le> start t \<and> start t < endt t) (targets b)"
  shows "slots_used (assign_threads b) = max_in_flight (targets b)"
proof (cases "targets b = []")
  case True
  then show ?thesis
    by (simp add: assign_threads_def sorted_targets_def slots_used_def max_in_flight_def)
next
  case False
  obtain ts' th' where r: "fold schedule_target (sorted_targets (targets b)) (targets b, [0]) = (ts', th')"
    by (cases "fold schedule_target (sorted_targets (targets b)) (targets b, [0])")
  note s = assign_threads_slots[OF assms False r]
  obtain t where t: "length th' \<le> in_flight (targets b) t" using s(2) by blast
  obtain t' where t': "in_flight (targets b) t' = max_in_flight (targets b)"
    using max_in_flight_attained by blast
  have "length th' \<le> max_in_flight (targets b)"
    using t in_flight_le_max_in_flight[of "targets b" t] by simp
  moreover have "max_in_flight (targets b) \<le> length th'"
    using s(3)[of t'] t' by simp
  ultimately show ?thesis using s(1) by simp
qed

theorem assign_threads_minimal_witness:
  "fresh \<lparr>targets = [mk_target 2 8 ''b'' ''h2'', mk_target 0 10 ''a'' ''h1'', mk_target 8 9 ''c'' ''h3''],
       current = None\<rparr>
   \<and> slots_used (assign_threads
      \<lparr>targets = [mk_target 2 8 ''b'' ''h2'', mk_target 0 10 ''a'' ''h1'', mk_target 8 9 ''c'' ''h3''],
       current = None\<rparr>) = 2
   \<and> max_in_flight [mk_target 2 8 ''b'' ''h2'', mk_target 0 10 ''a'' ''h1'', mk_target 8 9 ''c'' ''h3''] = 2"
proof -
  let ?b = "\<lparr>targets = [mk_target 2 8 ''b'' ''h2'', mk_target 0 10 ''a'' ''h1'', mk_target 8 9 ''c'' ''h3''],
       current = None\<rparr>"
  have h1: "fresh ?b" by (simp add: fresh_def)
  have h2: "list_all (\<lambda>t. 0 \<le> start t \<and> start t < endt t) (targets ?b)" by simp
  have m: "max_in_flight (targets ?b) = 2" by code_simp
  show ?thesis
    using assign_threads_minimal[OF h1 h2] h1 m by simp
qed

text \<open>
  C2, as stated: for records with \<open>end \<ge> start\<close> the number of slots is the maximum
  number of records in flight. This fails with a record of duration zero: of the records
  \<open>a\<close> from 0 to 5, \<open>b\<close> from 5 to 10 and \<open>c\<close> from 5 to 5, no two are in flight at
  the same instant, and the scheduler, which takes \<open>b\<close> before \<open>c\<close>, uses two slots.
\<close>

theorem assign_threads_zero_duration_over_allocates:
  "list_all (\<lambda>t. start t \<le> endt t)
     [mk_target 0 5 ''a'' ''h1'', mk_target 5 10 ''b'' ''h2'', mk_target 5 5 ''c'' ''h3'']
   \<and> slots_used (assign_threads
       \<lparr>targets = [mk_target 0 5 ''a'' ''h1'', mk_target 5 10 ''b'' ''h2'', mk_target 5 5 ''c'' ''h3''],
        current = None\<rparr>) = 2
   \<and> max_in_flight [mk_target 0 5 ''a'' ''h1'', mk_target 5 10 ''b'' ''h2'', mk_target 5 5 ''c'' ''h3''] = 1"
  by (simp add: slots_used_def assign_threads_def sorted_targets_def schedule_target_def
      max_in_flight_def in_flight_def upt_rec[of 0] Let_def)

text \<open>
  The first slot starts with the end time 0, so a record that starts before 0 never takes
  it: of the two records below no two are in flight at the same instant, and two slots
  are used.
\<close>

lemma assign_threads_negative_start:
  "slots_used (assign_threads
       \<lparr>targets = [mk_target (-5) (-3) ''a'' ''h1'', mk_target 1 2 ''b'' ''h2''],
        current = None\<rparr>) = 2
   \<and> max_in_flight [mk_target (-5) (-3) ''a'' ''h1'', mk_target 1 2 ''b'' ''h2''] = 1"
  by code_simp

section \<open>The reader\<close>

subsection \<open>The version header\<close>

lemma find_version_skip:
  "check_version l = Inr None \<Longrightarrow> find_version (l # ls) = find_version ls"
  by (subst find_version.simps) (simp add: readline_def)

lemma find_version_found:
  "check_version l = Inr (Some v) \<Longrightarrow> find_version (l # ls) = Some (Inr (v, ls))"
  by (subst find_version.simps) (simp add: readline_def)

lemma find_version_error:
  "check_version l = Inl e \<Longrightarrow> find_version (l # ls) = Some (Inl e)"
  by (subst find_version.simps) (simp add: readline_def)

lemma find_version_skip_all:
  "\<forall>l \<in> set pre. check_version l = Inr None \<Longrightarrow> find_version (pre @ f) = find_version f"
  by (induction pre) (simp_all add: find_version_skip)

text \<open>If the loop returns, some line of the file made \<^verbatim>\<open>check_version\<close> return a
  version or raise.\<close>

lemma find_version_no_marker:
  assumes "find_version f = Some y"
  shows "\<exists>l \<in> set f. check_version l \<noteq> Inr None"
proof (rule find_version.raw_induct[where P = "\<lambda>f y. \<exists>l \<in> set f. check_version l \<noteq> Inr None"])
  show "find_version f = Some y" by fact
next
  fix fv :: "string list \<Rightarrow> (error + int \<times> string list) option" and g r
  assume IH: "\<And>x y. fv x = Some y \<Longrightarrow> \<exists>l \<in> set x. check_version l \<noteq> Inr None"
    and body: "(case readline g of
      (line, f') \<Rightarrow>
        case check_version line of Inl e \<Rightarrow> Some (Inl e)
        | Inr None \<Rightarrow> fv f'
        | Inr (Some version) \<Rightarrow> Some (Inr (version, f'))) = Some r"
  show "\<exists>l \<in> set g. check_version l \<noteq> Inr None"
  proof (cases g)
    case Nil
    have "check_version [] = Inr None"
      by (simp add: check_version_def ninja_log_match_def)
    then have "fv [] = Some r" using body Nil by (simp add: readline_def)
    then show ?thesis using IH Nil by blast
  next
    case (Cons l ls)
    show ?thesis
    proof (cases "check_version l = Inr None")
      case True
      then have "fv ls = Some r" using body Cons by (simp add: readline_def)
      then show ?thesis using IH Cons by fastforce
    next
      case False
      then show ?thesis using Cons by auto
    qed
  qed
qed

lemma find_version_diverges:
  "\<forall>l \<in> set f. check_version l = Inr None \<Longrightarrow> find_version f = None"
  using find_version_no_marker by (metis option.exhaust)

text \<open>
  C6: reading terminates on every finite input, and an input without a marker line is
  read as a log without records. The code does not do this: at the end of the file
  \<^verbatim>\<open>readline\<close> returns the empty string, for which \<^verbatim>\<open>check_version\<close> returns
  \<^verbatim>\<open>None\<close>, and the loop goes on. On the empty file, and on a file of one record
  line without a header, \<^verbatim>\<open>read_log\<close> does not return.
\<close>

theorem read_log_no_marker_diverges:
  "read_log [] = None
   \<and> read_log (''1'' @ [TAB] @ ''2'' @ [TAB] @ ''0'' @ [TAB] @ ''foo'' @ [TAB] @ ''abc'' @ [NL]) = None"
  by (simp add: read_log_def find_version_diverges check_version_def)

lemma check_version_v5: "check_version (''# ninja log v5'' @ [NL]) = Inr (Some 5)"
  by code_simp

text \<open>
  A marker line whose digit is not 5 stops the reading: the version error (with the
  closest supported version 5 and the digit read) is printed and the program exits with
  status 1, whatever the lines before it that are not markers and whatever the body.
\<close>

lemma read_log_version_gate:
  assumes "file_lines content = pre @ h # body"
    and "\<forall>l \<in> set pre. check_version l = Inr None"
    and "ninja_log_match h = Some d"
    and "digit_val d \<noteq> 5"
  shows "read_log content = Some ([VersionError 5 (digit_val d)], Inl (SystemExit 1))"
proof -
  have "lit ''#'' h \<noteq> None" using assms(3) by (auto simp: ninja_log_match_def bind_eq_Some_conv)
  then have "h \<noteq> []" "hd h = CHR ''#''" by (cases h; simp split: if_splits)+
  then have "check_version h = Inl (VersionError 5 (digit_val d))"
    using assms(3,4) by (simp add: check_version_def allowed_versions_def)
  then have "find_version (pre @ h # body) = Some (Inl (VersionError 5 (digit_val d)))"
    using assms(2) by (simp add: find_version_skip_all find_version_error)
  then show ?thesis using assms(1) by (simp add: read_log_def)
qed

text \<open>
  C7: every header that declares a version other than 5 makes the reading fail with the
  version error, which carries the declared version. The code reads one digit after
  \<^verbatim>\<open>v\<close> only: a log that declares version 50 is read as a log of version 5, its
  records included, and a log that declares version 10 is refused as version 1.
\<close>

theorem read_log_two_digit_version:
  "read_log (''# ninja log v50'' @ [NL]
      @ ''1'' @ [TAB] @ ''2'' @ [TAB] @ ''0'' @ [TAB] @ ''foo'' @ [TAB] @ ''abc'' @ [NL])
   = Some ([], Inr [\<lparr>targets = [mk_target 1 2 ''foo'' ''abc''], current = None\<rparr>])
   \<and> read_log (''# ninja log v10'' @ [NL]) = Some ([VersionError 5 1], Inl (SystemExit 1))"
proof -
  have 1: "check_version (''# ninja log v50'' @ [NL]) = Inr (Some 5)" by code_simp
  have 2: "check_version (''# ninja log v10'' @ [NL]) = Inl (VersionError 5 1)" by code_simp
  have 3: "parse_record (''1'' @ [TAB] @ ''2'' @ [TAB] @ ''0'' @ [TAB] @ ''foo'' @ [TAB] @ ''abc'' @ [NL])
      = Inr (mk_target 1 2 ''foo'' ''abc'')" by code_simp
  show ?thesis
    using find_version_found[OF 1] find_version_error[OF 2] 3
    by (simp add: read_log_def append_target_def need_new_build_def Build_init_def add_target_def)
qed

subsection \<open>The body\<close>

text \<open>
  C5: blank lines of the body are skipped without error. The code does not do this: a
  line read from the file ends with its newline, so a blank line is never the empty
  string that the test of the loop looks for; it is split into one empty field, and the
  unpacking into five names raises \<^verbatim>\<open>ValueError\<close>.
\<close>

theorem read_log_blank_line_fails:
  "read_log (''# ninja log v5'' @ [NL] @ [NL]
      @ ''1'' @ [TAB] @ ''2'' @ [TAB] @ ''0'' @ [TAB] @ ''foo'' @ [TAB] @ ''abc'' @ [NL])
   = Some ([], Inl (ValueError_unpack 1))"
proof -
  have "parse_record [NL] = Inl (ValueError_unpack 1)" by code_simp
  then show ?thesis
    using find_version_found[OF check_version_v5] by (simp add: read_log_def)
qed

text \<open>Comment lines of the body are skipped, and a record line is appended.\<close>

lemma read_body_comment:
  "read_body builds ((CHR ''#'' # l) # f) = read_body builds f"
  by simp

lemma read_body_record:
  "line \<noteq> [] \<Longrightarrow> hd line \<noteq> CHR ''#'' \<Longrightarrow> parse_record line = Inr t \<Longrightarrow>
   read_body builds (line # f) = read_body (append_target builds t) f"
  by simp

subsection \<open>Records\<close>

lemma parse_record_five:
  "fields line = [a, b, c, d, e] \<Longrightarrow> parse_record line = Target_init a b d e"
  by (simp add: parse_record_def fields_def)

lemma parse_record_other:
  "length (fields line) \<noteq> 5 \<Longrightarrow> parse_record line = Inl (ValueError_unpack (length (fields line)))"
  unfolding parse_record_def fields_def
  by (auto split: list.splits)

lemma length_five:
  "length xs = 5 \<Longrightarrow> \<exists>a b c d e. xs = [a, b, c, d, e]"
  by (auto simp: length_Suc_conv eval_nat_numeral)



lemma isdigit_not_underscore: "isdigit c \<Longrightarrow> c \<noteq> CHR ''_''"
  by (auto simp: isdigit_def)

lemma digits_no_double_underscore: "list_all isdigit ds \<Longrightarrow> \<not> double_underscore ds"
  by (induction ds rule: double_underscore.induct) (auto dest: isdigit_not_underscore)

text \<open>The literal of a non-empty string of digits.\<close>

lemma int_literal_digits:
  assumes "ds \<noteq> []" "list_all isdigit ds"
  shows "int_literal s neg ds =
     (if int_max_str_digits < int (length ds) then Inl (ValueError_digits (length ds))
      else Inr (if neg then - digits_value ds else digits_value ds))"
proof -
  have all: "\<forall>c \<in> set ds. digit_or_underscore c"
    using assms(2) by (simp add: list_all_iff digit_or_underscore_def)
  have run: "takeWhile digit_or_underscore ds = ds" "dropWhile digit_or_underscore ds = []"
    using all by simp_all
  have f: "filter isdigit ds = ds" using assms(2) by (simp add: list_all_iff)
  have h: "hd ds \<noteq> CHR ''_''" "last ds \<noteq> CHR ''_''"
    using assms isdigit_not_underscore by (auto simp: list_all_iff)
  show ?thesis
    using assms(1) h digits_no_double_underscore[OF assms(2)]
    by (simp add: int_literal_def Let_def run f)
qed


text \<open>A literal of more digits than \<open>int_max_str_digits\<close> is refused.\<close>

lemma py_int_too_long:
  assumes "list_all isdigit ds" "int_max_str_digits < int (length ds)"
  shows "py_int ds = Inl (ValueError_digits (length ds))"
proof -
  obtain c cs where ds: "ds = c # cs"
    using assms(2) by (cases ds) (auto simp: int_max_str_digits_def)
  have "isdigit c" using assms(1) ds by simp
  then have sp: "\<not> int_space c" "c \<noteq> CHR ''-''" "c \<noteq> CHR ''+''"
    by (auto simp: isdigit_def int_space_def)
  have "int_literal ds False ds = Inl (ValueError_digits (length ds))"
    using int_literal_digits[of ds ds False] assms ds by simp
  then show ?thesis using sp ds by (simp add: py_int_def)
qed

text \<open>
  Every build that the reader returns is as the scheduler expects it: no record has a
  slot.
\<close>

lemma parse_record_thread: "parse_record line = Inr t \<Longrightarrow> thread t = None"
proof (cases "length (fields line) = 5")
  case False
  assume "parse_record line = Inr t"
  then show ?thesis using parse_record_other[OF False] by simp
next
  case True
  assume p: "parse_record line = Inr t"
  obtain a b c d e where "fields line = [a, b, c, d, e]"
    using length_five[OF True] by blast
  then have "Target_init a b d e = Inr t" using p parse_record_five by simp
  then show ?thesis by (auto simp: Target_init_def split: sum.splits)
qed

lemma append_target_fresh:
  assumes "builds \<noteq> []" "list_all fresh builds" "thread t = None"
  shows "append_target builds t \<noteq> [] \<and> list_all fresh (append_target builds t)"
proof -
  have l: "fresh (last builds)" using assms(1,2) by (simp add: list_all_iff)
  have b: "list_all fresh (butlast builds)"
    using assms(2) by (auto simp: list_all_iff dest: in_set_butlastD)
  show ?thesis
    using assms(2,3) l b
    by (simp add: append_target_def fresh_def add_target_def Build_init_def)
qed

lemma read_body_fresh:
  "read_body builds f = Inr bs \<Longrightarrow> builds \<noteq> [] \<Longrightarrow> list_all fresh builds \<Longrightarrow>
   list_all fresh bs"
proof (induction f arbitrary: builds)
  case Nil
  then show ?case by simp
next
  case (Cons line f)
  show ?case
  proof (cases "line = [] \<or> hd line = CHR ''#''")
    case True
    then show ?thesis using Cons by simp
  next
    case False
    then obtain t where t: "parse_record line = Inr t"
      and r: "read_body (append_target builds t) f = Inr bs"
      using Cons.prems(1) by (auto split: sum.splits)
    show ?thesis
      using Cons.IH[OF r] append_target_fresh[OF Cons.prems(2,3) parse_record_thread[OF t]]
      by simp
  qed
qed

lemma read_log_fresh:
  "read_log content = Some (errs, Inr builds) \<Longrightarrow> list_all fresh builds"
  by (auto simp: read_log_def fresh_def Build_init_def split: option.splits sum.splits
      dest!: read_body_fresh)




section \<open>The trace\<close>










end
